theory Spec2Isabelle
  imports Main "HOL-Library.Multiset"
begin

section \<open>JavaScript values used by the listing page\<close>

text \<open>
  The listing page (\<^verbatim>\<open>src/unnamed/part_001\<close>, lines 10 to 21) computes
  \<^verbatim>\<open>
  const sortedPosts = posts
    .filter((p) => p.frontmatter.draft !== true)
    .sort((a, b) =>
        new Date(b.frontmatter.date).valueOf() -
        new Date(a.frontmatter.date).valueOf());
  \<close>
  The embedding keeps the objects of the program in an explicit store, since
  \<^verbatim>\<open>filter\<close> allocates a new array and \<^verbatim>\<open>sort\<close> sorts an array in place.
\<close>

datatype js_value = JUndefined | JNull | JBool bool | JNumber int | JString string

text \<open>
  A time value of a Date object is either NaN or an integral number of milliseconds;
  the result of subtracting two of them is again NaN or an integral double.
\<close>

datatype js_number = NaN | Num int

datatype js_date = Date js_number

datatype js_error = TypeError

text \<open>\<^verbatim>\<open>TimeClip\<close> of ECMA-262: a time value beyond 8.64e15 ms is NaN.\<close>

definition TimeClip :: "js_number \<Rightarrow> js_number" where
  "TimeClip t = (case t of NaN \<Rightarrow> NaN
     | Num v \<Rightarrow> if \<bar>v\<bar> > 8640000000000000 then NaN else Num v)"

text \<open>\<^verbatim>\<open>new Date(value)\<close> for a \<^verbatim>\<open>value\<close> that is a Date object: the time value
  of \<^verbatim>\<open>value\<close>, clipped. The new Date object is dropped as soon as its time value
  is read, and \<^verbatim>\<open>value\<close> is not written to, so it is not kept in the store.\<close>

definition new_Date :: "js_date \<Rightarrow> js_date" where
  "new_Date value = (case value of Date tv \<Rightarrow> Date (TimeClip tv))"

definition valueOf :: "js_date \<Rightarrow> js_number" where
  "valueOf d = (case d of Date tv \<Rightarrow> tv)"

text \<open>
  The double nearest to an integer \<open>d\<close> (ties to even), for \<open>\<bar>d\<bar> \<le> 2 ^ 54\<close>: integers
  up to \<open>2 ^ 53\<close> are doubles; between \<open>2 ^ 53\<close> and \<open>2 ^ 54\<close> the doubles are the even
  integers, and an odd integer rounds to the neighbour that is a multiple of four.
  Clipped time values are below \<open>2 ^ 53\<close>, so their differences are in that range.
\<close>

definition to_double :: "int \<Rightarrow> int" where
  "to_double d =
     (if \<bar>d\<bar> \<le> 2 ^ 53 then d
      else if even d then d
      else if (d + 1) mod 4 = 0 then d + 1
      else d - 1)"

text \<open>The operator \<^verbatim>\<open>-\<close> on numbers.\<close>

fun js_minus :: "js_number \<Rightarrow> js_number \<Rightarrow> js_number" where
  "js_minus (Num x) (Num y) = Num (to_double (x - y))"
| "js_minus _ _ = NaN"

text \<open>The operator \<^verbatim>\<open>>=\<close> on numbers: false when an operand is NaN.\<close>

fun js_ge :: "js_number \<Rightarrow> js_number \<Rightarrow> bool" where
  "js_ge (Num x) (Num y) = (x \<ge> y)"
| "js_ge _ _ = False"

text \<open>The operator \<^verbatim>\<open><\<close> on numbers: false when an operand is NaN.\<close>

fun js_lt :: "js_number \<Rightarrow> js_number \<Rightarrow> bool" where
  "js_lt (Num x) (Num y) = (x < y)"
| "js_lt _ _ = False"

section \<open>Documents and the store\<close>

text \<open>
  Modelled from the spec: the frontmatter schema \<^verbatim>\<open>blog\<close> of
  \<^verbatim>\<open>lib/markdoc/frontmatter.schema\<close> and the reader \<^verbatim>\<open>readAll\<close> of
  \<^verbatim>\<open>lib/markdoc/read\<close> are not among the sources. The fields are those of section 3
  of the specification; \<open>date\<close> is a Date object (the page calls
  \<^verbatim>\<open>post.frontmatter.date.toISOString()\<close>), and \<open>draft\<close> is kept as an arbitrary
  value because the page compares it with \<^verbatim>\<open>!== true\<close>.
\<close>

record blog_frontmatter =
  title :: string
  description :: string
  date :: js_date
  external :: js_value
  draft :: js_value
  ogImagePath :: js_value
  url :: js_value

record document =
  frontmatter :: blog_frontmatter
  slug :: string
  body :: string

type_synonym ref = nat

datatype obj = DocObj document | ArrObj "ref list"

text \<open>The store: the object at reference \<open>r\<close> is \<open>h ! r\<close>; allocation appends.\<close>

type_synonym heap = "obj list"

text \<open>
  \<^verbatim>\<open>p.frontmatter\<close> followed by a property read: a TypeError when \<^verbatim>\<open>p\<close> is not a
  document (then \<^verbatim>\<open>p.frontmatter\<close> is undefined).
\<close>

definition get_document :: "heap \<Rightarrow> ref \<Rightarrow> js_error + document" where
  "get_document h r =
     (if r < length h
      then (case h ! r of DocObj d \<Rightarrow> Inr d | ArrObj _ \<Rightarrow> Inl TypeError)
      else Inl TypeError)"

text \<open>The elements of the array a method is called on; a TypeError on anything else.\<close>

definition get_array :: "heap \<Rightarrow> ref \<Rightarrow> js_error + ref list" where
  "get_array h r =
     (if r < length h
      then (case h ! r of ArrObj xs \<Rightarrow> Inr xs | DocObj _ \<Rightarrow> Inl TypeError)
      else Inl TypeError)"

section \<open>The two callbacks\<close>

text \<open>\<^verbatim>\<open>(p) => p.frontmatter.draft !== true\<close>\<close>

definition not_draft :: "heap \<Rightarrow> ref \<Rightarrow> js_error + bool" where
  "not_draft h p =
     (case get_document h p of Inl e \<Rightarrow> Inl e
      | Inr d \<Rightarrow> Inr (draft (frontmatter d) \<noteq> JBool True))"

text \<open>\<^verbatim>\<open>new Date(p.frontmatter.date).valueOf()\<close>\<close>

definition date_value :: "document \<Rightarrow> js_number" where
  "date_value d = valueOf (new_Date (date (frontmatter d)))"

text \<open>\<^verbatim>\<open>(a, b) => new Date(b.frontmatter.date).valueOf() - new Date(a.frontmatter.date).valueOf()\<close>\<close>

definition by_date_desc :: "heap \<Rightarrow> ref \<Rightarrow> ref \<Rightarrow> js_error + js_number" where
  "by_date_desc h a b =
     (case get_document h b of Inl e \<Rightarrow> Inl e
      | Inr db \<Rightarrow>
         (case get_document h a of Inl e \<Rightarrow> Inl e
          | Inr da \<Rightarrow> Inr (js_minus (date_value db) (date_value da))))"

section \<open>Array.prototype.filter and Array.prototype.sort\<close>

text \<open>
  \<^verbatim>\<open>filter\<close> calls the callback on every element in order, stops at the first
  exception, and returns a new array of the elements the callback kept.
\<close>

fun filter_elems :: "(ref \<Rightarrow> js_error + bool) \<Rightarrow> ref list \<Rightarrow> js_error + ref list" where
  "filter_elems f [] = Inr []"
| "filter_elems f (x # xs) =
     (case f x of Inl e \<Rightarrow> Inl e
      | Inr keep \<Rightarrow>
         (case filter_elems f xs of Inl e \<Rightarrow> Inl e
          | Inr ys \<Rightarrow> Inr (if keep then x # ys else ys)))"

definition array_filter ::
  "heap \<Rightarrow> (heap \<Rightarrow> ref \<Rightarrow> js_error + bool) \<Rightarrow> ref \<Rightarrow> js_error + (ref \<times> heap)" where
  "array_filter h f a =
     (case get_array h a of Inl e \<Rightarrow> Inl e
      | Inr xs \<Rightarrow>
         (case filter_elems (f h) xs of Inl e \<Rightarrow> Inl e
          | Inr ys \<Rightarrow> Inr (length h, h @ [ArrObj ys])))"

text \<open>
  \<^verbatim>\<open>SortCompare\<close> of ECMA-262: the comparator's result, with NaN read as \<open>+0\<close>.
\<close>

definition SortCompare ::
  "(ref \<Rightarrow> ref \<Rightarrow> js_error + js_number) \<Rightarrow> ref \<Rightarrow> ref \<Rightarrow> js_error + int" where
  "SortCompare comparefn x y =
     (case comparefn x y of Inl e \<Rightarrow> Inl e
      | Inr NaN \<Rightarrow> Inr 0
      | Inr (Num v) \<Rightarrow> Inr v)"

text \<open>
  \<^verbatim>\<open>sort\<close> as the engine the site is built with (Node, V8) computes it for an
  array of fewer than 64 elements: \<^verbatim>\<open>CountAndMakeRun\<close> takes the longest initial run
  (ascending, or strictly descending and then reversed), and \<^verbatim>\<open>BinaryInsertionSort\<close>
  inserts each further element at the place a binary search finds. Longer arrays
  are cut into runs of this kind, which are then merged; on a consistent comparator
  (all dates valid) the merge returns the same stable order as the insertion. The
  embedding inserts at every length. The search is started with \<open>left = 0\<close> and
  \<open>right = length ws\<close>, so every index it reads is inside \<open>ws\<close>.
\<close>

function binary_search ::
  "(ref \<Rightarrow> ref \<Rightarrow> js_error + js_number) \<Rightarrow> ref \<Rightarrow> ref list \<Rightarrow> nat \<Rightarrow> nat \<Rightarrow> js_error + nat" where
  "binary_search comparefn pivot ws left right =
     (if left < right
      then (case SortCompare comparefn pivot (ws ! (left + (right - left) div 2)) of
              Inl e \<Rightarrow> Inl e
            | Inr order \<Rightarrow>
                if order < 0
                then binary_search comparefn pivot ws left (left + (right - left) div 2)
                else binary_search comparefn pivot ws (left + (right - left) div 2 + 1) right)
      else Inr left)"
  by pat_completeness auto
termination
  by (relation "measure (\<lambda>(c, p, ws, l, r). r - l)") auto

declare binary_search.simps [simp del]

fun BinaryInsertionSort ::
  "(ref \<Rightarrow> ref \<Rightarrow> js_error + js_number) \<Rightarrow> ref list \<Rightarrow> ref list \<Rightarrow> js_error + ref list" where
  "BinaryInsertionSort comparefn ws [] = Inr ws"
| "BinaryInsertionSort comparefn ws (pivot # rest) =
     (case binary_search comparefn pivot ws 0 (length ws) of Inl e \<Rightarrow> Inl e
      | Inr left \<Rightarrow>
          BinaryInsertionSort comparefn (take left ws @ pivot # drop left ws) rest)"

text \<open>How many elements after \<open>prev\<close> continue the run.\<close>

fun run_length ::
  "(ref \<Rightarrow> ref \<Rightarrow> js_error + js_number) \<Rightarrow> bool \<Rightarrow> ref \<Rightarrow> ref list \<Rightarrow> js_error + nat" where
  "run_length comparefn isDescending prev [] = Inr 0"
| "run_length comparefn isDescending prev (x # xs) =
     (case SortCompare comparefn x prev of Inl e \<Rightarrow> Inl e
      | Inr order \<Rightarrow>
          if (if isDescending then order \<ge> 0 else order < 0) then Inr 0
          else (case run_length comparefn isDescending x xs of Inl e \<Rightarrow> Inl e
                | Inr n \<Rightarrow> Inr (Suc n)))"

text \<open>The initial run, reversed when it is descending, and the elements after it.\<close>

definition CountAndMakeRun ::
  "(ref \<Rightarrow> ref \<Rightarrow> js_error + js_number) \<Rightarrow> ref \<Rightarrow> ref \<Rightarrow> ref list
     \<Rightarrow> js_error + ref list \<times> ref list" where
  "CountAndMakeRun comparefn x0 x1 rest =
     (case SortCompare comparefn x1 x0 of Inl e \<Rightarrow> Inl e
      | Inr order \<Rightarrow>
          (case run_length comparefn (order < 0) x1 rest of Inl e \<Rightarrow> Inl e
           | Inr n \<Rightarrow>
               Inr (if order < 0 then rev (x0 # x1 # take n rest) else x0 # x1 # take n rest,
                    drop n rest)))"

definition sort_elems ::
  "(ref \<Rightarrow> ref \<Rightarrow> js_error + js_number) \<Rightarrow> ref list \<Rightarrow> js_error + ref list" where
  "sort_elems comparefn xs =
     (case xs of
        x0 # x1 # rest \<Rightarrow>
          (case CountAndMakeRun comparefn x0 x1 rest of Inl e \<Rightarrow> Inl e
           | Inr (run, others) \<Rightarrow> BinaryInsertionSort comparefn run others)
      | _ \<Rightarrow> Inr xs)"

text \<open>\<^verbatim>\<open>sort\<close> writes the sorted elements back into the array it was called on and
  returns that array.\<close>

definition array_sort ::
  "heap \<Rightarrow> (heap \<Rightarrow> ref \<Rightarrow> ref \<Rightarrow> js_error + js_number) \<Rightarrow> ref \<Rightarrow> js_error + (ref \<times> heap)" where
  "array_sort h comparefn a =
     (case get_array h a of Inl e \<Rightarrow> Inl e
      | Inr xs \<Rightarrow>
         (case sort_elems (comparefn h) xs of Inl e \<Rightarrow> Inl e
          | Inr ys \<Rightarrow> Inr (a, h[a := ArrObj ys])))"

section \<open>The Publication Filter/Sort\<close>

definition sortedPosts :: "heap \<Rightarrow> ref \<Rightarrow> js_error + (ref \<times> heap)" where
  "sortedPosts h posts =
     (case array_filter h not_draft posts of Inl e \<Rightarrow> Inl e
      | Inr (a, h1) \<Rightarrow> array_sort h1 by_date_desc a)"

text \<open>What \<^verbatim>\<open>readAll\<close> hands over: an array whose elements are documents.\<close>

definition document_array :: "heap \<Rightarrow> ref \<Rightarrow> ref list \<Rightarrow> bool" where
  "document_array h a rs =
     (get_array h a = Inr rs \<and> list_all (\<lambda>r. \<not> isl (get_document h r)) rs)"

text \<open>The timestamp the comparator reads for the document at a reference.\<close>

definition time_value :: "heap \<Rightarrow> ref \<Rightarrow> js_number" where
  "time_value h r = (case get_document h r of Inl _ \<Rightarrow> NaN | Inr d \<Rightarrow> date_value d)"

section \<open>The site configuration\<close>

text \<open>
  \<^verbatim>\<open>src/src/config.ts\<close>. The URL parser behind \<^verbatim>\<open>new URL\<close> belongs to the platform.
  Its first states (WHATWG URL standard, the basic URL parser without a base URL)
  are written out: leading and trailing C0 controls and spaces are stripped, tabs
  and newlines removed, and the input must begin with a scheme, an ASCII letter
  followed by letters, digits, \<^verbatim>\<open>+\<close>, \<^verbatim>\<open>-\<close> or \<^verbatim>\<open>.\<close> up to a colon; without one the
  parser fails, since there is no base URL. The states after the scheme are a
  parameter, which returns the URL record or nothing on a parse failure.
\<close>

record url_record =
  scheme :: string
  host :: string
  port :: "nat option"
  path :: string
  query :: "string option"
  fragment :: "string option"

record env =
  SITE :: "string option"

record config =
  SITE_TITLE :: string
  SITE_DESCRIPTION :: string
  TWITTER_HANDLE :: string
  MY_NAME :: string
  SITE_URL :: string

definition c0_control_or_space :: "char \<Rightarrow> bool" where
  "c0_control_or_space c = (of_char c \<le> (32::nat))"

definition ascii_tab_or_newline :: "char \<Rightarrow> bool" where
  "ascii_tab_or_newline c = (of_char c = (9::nat) \<or> of_char c = (10::nat) \<or> of_char c = (13::nat))"

definition ascii_upper_alpha :: "char \<Rightarrow> bool" where
  "ascii_upper_alpha c = (65 \<le> (of_char c :: nat) \<and> (of_char c :: nat) \<le> 90)"

definition ascii_lower_alpha :: "char \<Rightarrow> bool" where
  "ascii_lower_alpha c = (97 \<le> (of_char c :: nat) \<and> (of_char c :: nat) \<le> 122)"

definition ascii_digit :: "char \<Rightarrow> bool" where
  "ascii_digit c = (48 \<le> (of_char c :: nat) \<and> (of_char c :: nat) \<le> 57)"

definition ascii_lowercase :: "char \<Rightarrow> char" where
  "ascii_lowercase c = (if ascii_upper_alpha c then char_of (of_char c + (32::nat)) else c)"

definition strip_input :: "string \<Rightarrow> string" where
  "strip_input input =
     filter (\<lambda>c. \<not> ascii_tab_or_newline c)
       (rev (dropWhile c0_control_or_space (rev (dropWhile c0_control_or_space input))))"

text \<open>The scheme state: the scheme read so far and the rest of the input.\<close>

fun scheme_state :: "string \<Rightarrow> string \<Rightarrow> (string \<times> string) option" where
  "scheme_state buffer [] = None"
| "scheme_state buffer (c # cs) =
     (if ascii_upper_alpha c \<or> ascii_lower_alpha c \<or> ascii_digit c \<or>
         c = CHR ''+'' \<or> c = CHR ''-'' \<or> c = CHR ''.''
      then scheme_state (buffer @ [ascii_lowercase c]) cs
      else if c = CHR '':'' then Some (buffer, cs)
      else None)"

definition scheme_start_state :: "string \<Rightarrow> (string \<times> string) option" where
  "scheme_start_state input =
     (case input of [] \<Rightarrow> None
      | c # cs \<Rightarrow>
          if ascii_upper_alpha c \<or> ascii_lower_alpha c
          then scheme_state [ascii_lowercase c] cs
          else None)"

definition basic_url_parser ::
  "(string \<Rightarrow> string \<Rightarrow> url_record option) \<Rightarrow> string \<Rightarrow> url_record option" where
  "basic_url_parser after_scheme input =
     (case scheme_start_state (strip_input input) of None \<Rightarrow> None
      | Some (s, remaining) \<Rightarrow>
          (case after_scheme s remaining of None \<Rightarrow> None
           | Some u \<Rightarrow> Some (u\<lparr>scheme := s\<rparr>)))"

text \<open>\<^verbatim>\<open>new URL(x)\<close>: \<^verbatim>\<open>x\<close> is converted to a string (\<^verbatim>\<open>undefined\<close> to
  \<^verbatim>\<open>"undefined"\<close>) and parsed without a base; a parse failure is a TypeError.\<close>

definition new_URL ::
  "(string \<Rightarrow> string \<Rightarrow> url_record option) \<Rightarrow> string option \<Rightarrow> js_error + url_record" where
  "new_URL after_scheme x =
     (case basic_url_parser after_scheme (case x of None \<Rightarrow> ''undefined'' | Some s \<Rightarrow> s) of
        None \<Rightarrow> Inl TypeError
      | Some u \<Rightarrow> Inr u)"

fun decimal :: "nat \<Rightarrow> string" where
  "decimal n =
     (if n < 10 then [char_of (48 + n)]
      else decimal (n div 10) @ [char_of (48 + n mod 10)])"

declare decimal.simps [simp del]

definition tuple_origin :: "url_record \<Rightarrow> string" where
  "tuple_origin u =
     scheme u @ ''://'' @ host u @
     (case port u of None \<Rightarrow> [] | Some p \<Rightarrow> '':'' @ decimal p)"

text \<open>
  The \<^verbatim>\<open>origin\<close> getter of a URL object (WHATWG URL standard): the serialised
  tuple origin for the special schemes other than \<^verbatim>\<open>file\<close>, the origin of the
  enclosed URL for \<^verbatim>\<open>blob\<close>, and \<^verbatim>\<open>"null"\<close> (an opaque origin) otherwise.
\<close>

definition origin ::
  "(string \<Rightarrow> string \<Rightarrow> url_record option) \<Rightarrow> url_record \<Rightarrow> string" where
  "origin after_scheme u =
     (if scheme u = ''blob''
      then (case basic_url_parser after_scheme (path u) of None \<Rightarrow> ''null''
            | Some p \<Rightarrow>
               if scheme p = ''http'' \<or> scheme p = ''https'' then tuple_origin p
               else ''null'')
      else if scheme u \<in> set [''ftp'', ''http'', ''https'', ''ws'', ''wss'']
      then tuple_origin u
      else ''null'')"

text \<open>Loading the module: the four literals, then \<^verbatim>\<open>BASE_URL\<close>, then \<^verbatim>\<open>SITE_URL\<close>.\<close>

definition load_config ::
  "(string \<Rightarrow> string \<Rightarrow> url_record option) \<Rightarrow> env \<Rightarrow> js_error + config" where
  "load_config after_scheme e =
     (case new_URL after_scheme (SITE e) of Inl err \<Rightarrow> Inl err
      | Inr BASE_URL \<Rightarrow>
         Inr \<lparr>SITE_TITLE = ''Cloud & Code with Damian Esteban '',
              SITE_DESCRIPTION = ''Dive into the world of cloud computing, software engineering, and application architecture. Damian Esteban brings you practical guides, tips, and tech musings.'',
              TWITTER_HANDLE = ''@estebanrules'',
              MY_NAME = ''Damian Esteban'',
              SITE_URL = origin after_scheme BASE_URL\<rparr>)"

section \<open>The listing page as a module\<close>

text \<open>
  The listing page imports \<^verbatim>\<open>SITE_TITLE\<close> from the configuration module
  (\<^verbatim>\<open>src/unnamed/part_001\<close>, line 8). The imports of a module are evaluated before
  its body, so the page computes \<^verbatim>\<open>sortedPosts\<close> and is rendered only when the
  configuration module has loaded. The result is the title handed to
  \<^verbatim>\<open>PageMeta\<close> and the array the list is rendered from.
\<close>

definition index_page ::
  "(string \<Rightarrow> string \<Rightarrow> url_record option) \<Rightarrow> env \<Rightarrow> heap \<Rightarrow> ref
     \<Rightarrow> js_error + (string \<times> ref \<times> heap)" where
  "index_page after_scheme e h posts =
     (case load_config after_scheme e of Inl err \<Rightarrow> Inl err
      | Inr cfg \<Rightarrow>
          (case sortedPosts h posts of Inl err \<Rightarrow> Inl err
           | Inr (out, h') \<Rightarrow> Inr (SITE_TITLE cfg, out, h')))"

section \<open>The contract of the Publication Filter/Sort\<close>

text \<open>The documents the listing shows: those whose \<open>draft\<close> is not the boolean true.\<close>

definition published :: "heap \<Rightarrow> ref \<Rightarrow> bool" where
  "published h r =
     (case get_document h r of Inl _ \<Rightarrow> False
      | Inr d \<Rightarrow> draft (frontmatter d) \<noteq> JBool True)"

text \<open>
  The sort without the store, on the timestamps \<open>k\<close>: \<open>x\<close> goes behind \<open>y\<close> when the
  timestamp of \<open>x\<close> is strictly older, which is when the comparator is negative at
  \<open>(y, x)\<close>. The lemmas below show that \<^const>\<open>sort_elems\<close> with the page's
  comparator computes \<open>sort_by_time\<close> of the timestamps.
\<close>

definition goes_after :: "(ref \<Rightarrow> js_number) \<Rightarrow> ref \<Rightarrow> ref \<Rightarrow> bool" where
  "goes_after k x y = js_lt (k x) (k y)"

function search_pos :: "(ref \<Rightarrow> js_number) \<Rightarrow> ref \<Rightarrow> ref list \<Rightarrow> nat \<Rightarrow> nat \<Rightarrow> nat" where
  "search_pos k pivot ws left right =
     (if left < right
      then (if goes_after k (ws ! (left + (right - left) div 2)) pivot
            then search_pos k pivot ws left (left + (right - left) div 2)
            else search_pos k pivot ws (left + (right - left) div 2 + 1) right)
      else left)"
  by pat_completeness auto
termination
  by (relation "measure (\<lambda>(k, p, ws, l, r). r - l)") auto

declare search_pos.simps [simp del]

fun insert_all :: "(ref \<Rightarrow> js_number) \<Rightarrow> ref list \<Rightarrow> ref list \<Rightarrow> ref list" where
  "insert_all k ws [] = ws"
| "insert_all k ws (pivot # rest) =
     insert_all k (take (search_pos k pivot ws 0 (length ws)) ws @ pivot #
                   drop (search_pos k pivot ws 0 (length ws)) ws) rest"

fun run_more :: "(ref \<Rightarrow> js_number) \<Rightarrow> bool \<Rightarrow> ref \<Rightarrow> ref list \<Rightarrow> nat" where
  "run_more k isDescending prev [] = 0"
| "run_more k isDescending prev (x # xs) =
     (if goes_after k prev x = isDescending then Suc (run_more k isDescending x xs) else 0)"

definition sort_by_time :: "(ref \<Rightarrow> js_number) \<Rightarrow> ref list \<Rightarrow> ref list" where
  "sort_by_time k xs =
     (case xs of
        x0 # x1 # rest \<Rightarrow>
          insert_all k
            (if goes_after k x0 x1 then rev (x0 # x1 # take (run_more k True x1 rest) rest)
             else x0 # x1 # take (run_more k False x1 rest) rest)
            (drop (run_more k (goes_after k x0 x1) x1 rest) rest)
      | _ \<Rightarrow> xs)"

section \<open>Example stores\<close>

definition example_post :: "string \<Rightarrow> js_number \<Rightarrow> js_value \<Rightarrow> obj" where
  "example_post s t dr =
     DocObj \<lparr>frontmatter = \<lparr>title = s, description = [], date = Date t,
                external = JBool False, draft = dr, ogImagePath = JUndefined,
                url = JUndefined\<rparr>,
             slug = s, body = []\<rparr>"

text \<open>The four posts of the repository, with the dates of their frontmatter
  (2023-08-20, 2023-07-28, 2025-06-16, 2023-06-06, as milliseconds since the epoch).\<close>

definition repository_store :: heap where
  "repository_store =
     [example_post ''rust-crud'' (Num 1692489600000) JUndefined,
      example_post ''yoga-graphql'' (Num 1690502400000) JUndefined,
      example_post ''postgis-prisma'' (Num 1750032000000) JUndefined,
      example_post ''art-and-heart'' (Num 1686009600000) JUndefined,
      ArrObj [0, 1, 2, 3]]"

text \<open>Example 1 of the specification: the third document is a draft.\<close>

definition example1_store :: heap where
  "example1_store =
     [example_post ''a'' (Num 1686009600000) (JBool False),
      example_post ''b'' (Num 1750032000000) (JBool False),
      example_post ''c'' (Num 1692489600000) (JBool True),
      ArrObj [0, 1, 2]]"

text \<open>Two documents share a date; the \<open>draft\<close> of one is the string \<^verbatim>\<open>"true"\<close>.\<close>

definition tie_store :: heap where
  "tie_store =
     [example_post ''first'' (Num 1690502400000) JUndefined,
      example_post ''newest'' (Num 1750032000000) JUndefined,
      example_post ''second'' (Num 1690502400000) (JString ''true''),
      ArrObj [0, 1, 2]]"

text \<open>One document carries an Invalid Date.\<close>

definition invalid_store :: heap where
  "invalid_store =
     [example_post ''old'' (Num 1686009600000) JUndefined,
      example_post ''undated'' (NaN) JUndefined,
      example_post ''new'' (Num 1750032000000) JUndefined,
      ArrObj [0, 1, 2]]"

text \<open>An array that is already filtered and in descending order.\<close>

definition sorted_store :: heap where
  "sorted_store =
     [example_post ''newest'' (Num 1750032000000) JUndefined,
      example_post ''first'' (Num 1690502400000) JUndefined,
      example_post ''second'' (Num 1690502400000) JUndefined,
      ArrObj [0, 1, 2]]"

text \<open>Valid and invalid dates mixed: three posts of one date, an Invalid Date, and
  three later posts, two of them of one date.\<close>

definition mixed_store :: heap where
  "mixed_store =
     [example_post ''p0'' (Num 1000) JUndefined,
      example_post ''p1'' (Num 1000) JUndefined,
      example_post ''p2'' (Num 1000) JUndefined,
      example_post ''p3'' NaN JUndefined,
      example_post ''p4'' (Num 2000) JUndefined,
      example_post ''p5'' (Num 3000) JUndefined,
      example_post ''p6'' (Num 2000) JUndefined,
      ArrObj [0, 1, 2, 3, 4, 5, 6]]"

definition short_mixed_store :: heap where
  "short_mixed_store =
     [example_post ''q0'' (Num 1000) JUndefined,
      example_post ''q1'' (Num 2000) JUndefined,
      example_post ''q2'' NaN JUndefined,
      example_post ''q3'' (Num 2000) JUndefined,
      ArrObj [0, 1, 2, 3]]"


definition accept_all :: "string \<Rightarrow> string \<Rightarrow> url_record option" where
  "accept_all s remaining =
     Some \<lparr>scheme = s, host = remaining, port = None, path = [], query = None,
           fragment = None\<rparr>"

lemmas store_defs = repository_store_def example1_store_def tie_store_def invalid_store_def
  sorted_store_def mixed_store_def short_mixed_store_def example_post_def

lemmas eval_defs = document_array_def get_array_def get_document_def time_value_def
  date_value_def new_Date_def valueOf_def TimeClip_def published_def

lemmas run_defs = sortedPosts_def array_filter_def array_sort_def get_array_def
  get_document_def not_draft_def by_date_desc_def SortCompare_def date_value_def
  new_Date_def valueOf_def TimeClip_def to_double_def sort_elems_def CountAndMakeRun_def
  binary_search.simps

lemmas url_defs = basic_url_parser_def scheme_start_state_def strip_input_def
  c0_control_or_space_def ascii_tab_or_newline_def ascii_upper_alpha_def
  ascii_lower_alpha_def ascii_digit_def ascii_lowercase_def

section \<open>The comparator and the sort, without the store\<close>

lemma to_double_neg: "(to_double d < 0) = (d < 0)"
  unfolding to_double_def by (auto; presburger)

lemma get_document_cases:
  "\<not> isl (get_document h r) \<Longrightarrow> \<exists>d. get_document h r = Inr d"
  by (cases "get_document h r") auto

lemma SortCompare_by_date:
  assumes "\<not> isl (get_document h x)" "\<not> isl (get_document h y)"
  shows "\<exists>v. SortCompare (by_date_desc h) x y = Inr v \<and>
           (v < 0) = goes_after (time_value h) y x"
proof -
  from assms obtain dx dy where d: "get_document h x = Inr dx" "get_document h y = Inr dy"
    by (auto dest!: get_document_cases)
  show ?thesis
    by (cases "date_value dx"; cases "date_value dy")
       (simp_all add: SortCompare_def by_date_desc_def goes_after_def time_value_def d
          to_double_neg)
qed

lemma binary_search_pure_aux:
  assumes "k = time_value h"
    and "\<not> isl (get_document h p)" "list_all (\<lambda>r. \<not> isl (get_document h r)) ws"
    and "right \<le> length ws"
  shows "binary_search (by_date_desc h) p ws left right =
         Inr (search_pos k p ws left right)"
  using assms
proof (induction k p ws left right rule: search_pos.induct)
  case (1 k p ws left right)
  show ?case
  proof (cases "left < right")
    case False
    then show ?thesis
      by (simp add: binary_search.simps [of _ p ws left right]
          search_pos.simps [of _ p ws left right])
  next
    case True
    let ?mid = "left + (right - left) div 2"
    have mid: "?mid < right" using True by linarith
    with "1.prems" have "?mid < length ws" by simp
    with "1.prems"(3) have "\<not> isl (get_document h (ws ! ?mid))"
      unfolding list_all_length by blast
    with "1.prems"(2) obtain v where v: "SortCompare (by_date_desc h) p (ws ! ?mid) = Inr v"
      "(v < 0) = goes_after (time_value h) (ws ! ?mid) p"
      using SortCompare_by_date [of h p "ws ! ?mid"] by auto
    have l: "?mid \<le> length ws" using mid "1.prems" by simp
    show ?thesis
      using True v "1.prems"(1) "1.IH"(1) [OF True _ "1.prems"(1,2,3) l]
        "1.IH"(2) [OF True _ "1.prems"]
      by (simp add: binary_search.simps [of _ p ws left right]
          search_pos.simps [of _ p ws left right])
  qed
qed

lemma binary_search_pure:
  assumes "\<not> isl (get_document h p)" "list_all (\<lambda>r. \<not> isl (get_document h r)) ws"
    and "right \<le> length ws"
  shows "binary_search (by_date_desc h) p ws left right =
         Inr (search_pos (time_value h) p ws left right)"
  using binary_search_pure_aux [OF refl assms] .

lemma set_insert_at: "set (take l ws @ p # drop l ws) = insert p (set ws)"
proof -
  have "set (take l ws @ p # drop l ws) = insert p (set (take l ws @ drop l ws))"
    by (simp only: set_append list.set) auto
  then show ?thesis by simp
qed

lemma BinaryInsertionSort_pure:
  "list_all (\<lambda>r. \<not> isl (get_document h r)) ws \<Longrightarrow>
   list_all (\<lambda>r. \<not> isl (get_document h r)) rest \<Longrightarrow>
   BinaryInsertionSort (by_date_desc h) ws rest = Inr (insert_all (time_value h) ws rest)"
proof (induction rest arbitrary: ws)
  case Nil
  then show ?case by simp
next
  case (Cons p rest)
  let ?l = "search_pos (time_value h) p ws 0 (length ws)"
  have s: "binary_search (by_date_desc h) p ws 0 (length ws) = Inr ?l"
    using Cons.prems by (intro binary_search_pure) simp_all
  have "list_all (\<lambda>r. \<not> isl (get_document h r)) (take ?l ws @ p # drop ?l ws)"
    using Cons.prems unfolding list_all_iff set_insert_at by simp
  with Cons s show ?case by simp
qed

lemma run_length_pure:
  "\<not> isl (get_document h prev) \<Longrightarrow> list_all (\<lambda>r. \<not> isl (get_document h r)) xs \<Longrightarrow>
   run_length (by_date_desc h) desc prev xs = Inr (run_more (time_value h) desc prev xs)"
proof (induction xs arbitrary: prev)
  case Nil
  then show ?case by simp
next
  case (Cons x xs)
  then obtain v where v: "SortCompare (by_date_desc h) x prev = Inr v"
    "(v < 0) = goes_after (time_value h) prev x"
    using SortCompare_by_date [of h x prev] by auto
  then have "(0 \<le> v) = (\<not> goes_after (time_value h) prev x)" by auto
  with v Cons show ?case by (cases desc) auto
qed

lemma sort_elems_pure:
  assumes "list_all (\<lambda>r. \<not> isl (get_document h r)) xs"
  shows "sort_elems (by_date_desc h) xs = Inr (sort_by_time (time_value h) xs)"
proof (cases xs)
  case Nil
  then show ?thesis by (simp add: sort_elems_def sort_by_time_def)
next
  case (Cons x0 ys)
  show ?thesis
  proof (cases ys)
    case Nil
    with Cons show ?thesis by (simp add: sort_elems_def sort_by_time_def)
  next
    case (Cons x1 rest)
    let ?k = "time_value h"
    from assms \<open>xs = x0 # ys\<close> Cons
    have d: "\<not> isl (get_document h x0)" "\<not> isl (get_document h x1)"
      "list_all (\<lambda>r. \<not> isl (get_document h r)) rest"
      by simp_all
    then obtain v where v: "SortCompare (by_date_desc h) x1 x0 = Inr v"
      "(v < 0) = goes_after ?k x0 x1"
      using SortCompare_by_date [of h x1 x0] by auto
    let ?n = "run_more ?k (goes_after ?k x0 x1) x1 rest"
    have r: "run_length (by_date_desc h) (v < 0) x1 rest = Inr ?n"
      using d v by (simp add: run_length_pure)
    have dr: "list_all (\<lambda>r. \<not> isl (get_document h r)) (drop ?n rest)"
      "list_all (\<lambda>r. \<not> isl (get_document h r)) (take ?n rest)"
      using d(3) by (auto simp: list_all_iff dest: in_set_dropD in_set_takeD)
    show ?thesis
    proof (cases "goes_after ?k x0 x1")
      case True
      have "list_all (\<lambda>r. \<not> isl (get_document h r)) (rev (x0 # x1 # take ?n rest))"
        using d dr by (simp add: list_all_iff)
      with True v r dr \<open>xs = x0 # ys\<close> Cons show ?thesis
        by (simp add: sort_elems_def sort_by_time_def CountAndMakeRun_def
            BinaryInsertionSort_pure del: rev.simps)
    next
      case False
      have "list_all (\<lambda>r. \<not> isl (get_document h r)) (x0 # x1 # take ?n rest)"
        using d dr by simp
      with False v r dr \<open>xs = x0 # ys\<close> Cons show ?thesis
        by (simp add: sort_elems_def sort_by_time_def CountAndMakeRun_def
            BinaryInsertionSort_pure)
    qed
  qed
qed

lemma mset_insert_all: "mset (insert_all k ws rest) = mset ws + mset rest"
proof (induction rest arbitrary: ws)
  case Nil
  then show ?case by simp
next
  case (Cons p rest)
  let ?l = "search_pos k p ws 0 (length ws)"
  have "mset (take ?l ws @ p # drop ?l ws) = add_mset p (mset (take ?l ws @ drop ?l ws))"
    by (simp only: mset_append mset.simps) simp
  with Cons show ?case by simp
qed

lemma mset_sort_by_time: "mset (sort_by_time k xs) = mset xs"
proof (cases xs)
  case Nil
  then show ?thesis by (simp add: sort_by_time_def)
next
  case (Cons x0 ys)
  show ?thesis
  proof (cases ys)
    case Nil
    with Cons show ?thesis by (simp add: sort_by_time_def)
  next
    case (Cons x1 rest)
    have "mset (take n rest) + mset (drop n rest) = mset rest" for n
      by (metis append_take_drop_id mset_append)
    with Cons \<open>xs = x0 # ys\<close> show ?thesis
      by (simp add: sort_by_time_def mset_insert_all add.assoc)
  qed
qed

lemma set_sort_by_time: "set (sort_by_time k xs) = set xs"
  by (metis mset_sort_by_time set_mset_mset)

lemma goes_after_asym: "goes_after k x y \<Longrightarrow> \<not> goes_after k y x"
  by (cases "k x"; cases "k y") (auto simp: goes_after_def)

lemma search_pos_done: "\<not> left < right \<Longrightarrow> search_pos k p ws left right = left"
  by (subst search_pos.simps) simp

lemma search_pos_step:
  "left < right \<Longrightarrow> search_pos k p ws left right =
     (if goes_after k (ws ! (left + (right - left) div 2)) p
      then search_pos k p ws left (left + (right - left) div 2)
      else search_pos k p ws (left + (right - left) div 2 + 1) right)"
  by (subst search_pos.simps) simp

lemma search_pos_bounds:
  "left \<le> right \<Longrightarrow> left \<le> search_pos k p ws left right \<and> search_pos k p ws left right \<le> right"
proof (induction k p ws left right rule: search_pos.induct)
  case (1 k p ws left right)
  show ?case
  proof (cases "left < right")
    case False
    with "1.prems" show ?thesis by (simp add: search_pos_done)
  next
    case True
    let ?mid = "left + (right - left) div 2"
    have m: "left \<le> ?mid" "?mid + 1 \<le> right" using True by linarith+
    show ?thesis
    proof (cases "goes_after k (ws ! ?mid) p")
      case g: True
      from "1.IH"(1) [OF True g m(1)] True g m show ?thesis
        by (simp add: search_pos_step)
    next
      case g: False
      from "1.IH"(2) [OF True g m(2)] True g m show ?thesis
        by (simp add: search_pos_step)
    qed
  qed
qed

text \<open>What the binary search has seen, for any comparator.\<close>

lemma search_pos_bracket:
  assumes "left \<le> right" "right \<le> length ws"
    and "left = 0 \<or> \<not> goes_after k (ws ! (left - 1)) p"
    and "right = length ws \<or> goes_after k (ws ! right) p"
  shows "(search_pos k p ws left right = 0 \<or>
            \<not> goes_after k (ws ! (search_pos k p ws left right - 1)) p) \<and>
         (search_pos k p ws left right = length ws \<or>
            goes_after k (ws ! search_pos k p ws left right) p)"
  using assms
proof (induction k p ws left right rule: search_pos.induct)
  case (1 k p ws left right)
  show ?case
  proof (cases "left < right")
    case False
    with "1.prems" have "left = right" by simp
    with "1.prems" False show ?thesis by (simp add: search_pos_done)
  next
    case True
    let ?mid = "left + (right - left) div 2"
    have m: "left \<le> ?mid" "?mid + 1 \<le> right" "?mid < length ws"
      using True "1.prems"(2) by linarith+
    show ?thesis
    proof (cases "goes_after k (ws ! ?mid) p")
      case g: True
      have "?mid \<le> length ws" using m by simp
      from "1.IH"(1) [OF True g m(1) this "1.prems"(3)] g True show ?thesis
        by (simp add: search_pos_step)
    next
      case g: False
      from "1.IH"(2) [OF True g m(2) "1.prems"(2) _ "1.prems"(4)] g True show ?thesis
        by (simp add: search_pos_step)
    qed
  qed
qed

lemma settled_insert_at:
  assumes s: "successively (\<lambda>a b. \<not> goes_after k a b) ws"
    and l: "l \<le> length ws"
    and left: "l = 0 \<or> \<not> goes_after k (ws ! (l - 1)) p"
    and right: "l = length ws \<or> goes_after k (ws ! l) p"
  shows "successively (\<lambda>a b. \<not> goes_after k a b) (take l ws @ p # drop l ws)"
proof -
  let ?P = "\<lambda>a b. \<not> goes_after k a b"
  have "successively ?P (take l ws @ drop l ws)" using s by simp
  then have t: "successively ?P (take l ws)" and d: "successively ?P (drop l ws)"
    unfolding successively_append_iff by simp_all
  have pd: "successively ?P (p # drop l ws)"
  proof (cases "l = length ws")
    case True
    then show ?thesis by simp
  next
    case False
    with l have "l < length ws" by simp
    then have "hd (drop l ws) = ws ! l" by (simp add: hd_drop_conv_nth)
    moreover from right False have "\<not> goes_after k p (ws ! l)"
      by (auto dest: goes_after_asym)
    ultimately show ?thesis using d by (simp add: successively_Cons)
  qed
  have "take l ws = [] \<or> ?P (last (take l ws)) p"
  proof (cases "l = 0")
    case True
    then show ?thesis by simp
  next
    case False
    with l have "take l ws \<noteq> []" by auto
    then have "last (take l ws) = take l ws ! (length (take l ws) - 1)"
      by (rule last_conv_nth)
    with l False have "last (take l ws) = ws ! (l - 1)"
      by (simp add: min_absorb2)
    with left False show ?thesis by simp
  qed
  with t pd show ?thesis
    unfolding successively_append_iff by auto
qed

lemma settled_insert_all:
  "successively (\<lambda>a b. \<not> goes_after k a b) ws \<Longrightarrow>
   successively (\<lambda>a b. \<not> goes_after k a b) (insert_all k ws rest)"
proof (induction rest arbitrary: ws)
  case Nil
  then show ?case by simp
next
  case (Cons p rest)
  let ?l = "search_pos k p ws 0 (length ws)"
  have "?l \<le> length ws" using search_pos_bounds [of 0 "length ws" k p ws] by simp
  moreover have "(?l = 0 \<or> \<not> goes_after k (ws ! (?l - 1)) p) \<and>
      (?l = length ws \<or> goes_after k (ws ! ?l) p)"
    by (rule search_pos_bracket) simp_all
  ultimately have "successively (\<lambda>a b. \<not> goes_after k a b) (take ?l ws @ p # drop ?l ws)"
    using Cons.prems by (intro settled_insert_at) simp_all
  then show ?case using Cons.IH by simp
qed

lemma run_more_le: "run_more k desc prev xs \<le> length xs"
  by (induction xs arbitrary: prev) auto

lemma run_more_successively:
  "successively (\<lambda>a b. goes_after k a b = desc) (prev # take (run_more k desc prev xs) xs)"
  by (induction xs arbitrary: prev) auto

lemma settled_run:
  "successively (\<lambda>a b. \<not> goes_after k a b)
     (if goes_after k x0 x1 then rev (x0 # x1 # take (run_more k True x1 rest) rest)
      else x0 # x1 # take (run_more k False x1 rest) rest)"
proof (cases "goes_after k x0 x1")
  case True
  have "successively (\<lambda>a b. goes_after k a b = True) (x0 # x1 # take (run_more k True x1 rest) rest)"
    using True run_more_successively [of k True x1 rest] by simp
  then have "successively (\<lambda>a b. goes_after k b a) (rev (x0 # x1 # take (run_more k True x1 rest) rest))"
    unfolding successively_rev by simp
  then have "successively (\<lambda>a b. \<not> goes_after k a b) (rev (x0 # x1 # take (run_more k True x1 rest) rest))"
    by (rule successively_mono) (auto dest: goes_after_asym)
  with True show ?thesis by (simp del: rev.simps)
next
  case False
  have "successively (\<lambda>a b. goes_after k a b = False) (x0 # x1 # take (run_more k False x1 rest) rest)"
    using False run_more_successively [of k False x1 rest] by simp
  with False show ?thesis by simp
qed

lemma settled_sort_by_time: "successively (\<lambda>a b. \<not> goes_after k a b) (sort_by_time k xs)"
proof (cases xs)
  case Nil
  then show ?thesis by (simp add: sort_by_time_def)
next
  case (Cons x0 ys)
  show ?thesis
  proof (cases ys)
    case Nil
    with Cons show ?thesis by (simp add: sort_by_time_def)
  next
    case (Cons x1 rest)
    with \<open>xs = x0 # ys\<close> show ?thesis
      using settled_insert_all [OF settled_run [of k x0 x1 rest]]
      by (simp add: sort_by_time_def del: rev.simps)
  qed
qed

lemma run_more_settled:
  "successively (\<lambda>a b. \<not> goes_after k a b) (prev # xs) \<Longrightarrow> run_more k False prev xs = length xs"
  by (induction xs arbitrary: prev) auto

lemma sort_by_time_fixed:
  assumes "successively (\<lambda>a b. \<not> goes_after k a b) xs"
  shows "sort_by_time k xs = xs"
proof (cases xs)
  case Nil
  then show ?thesis by (simp add: sort_by_time_def)
next
  case (Cons x0 ys)
  show ?thesis
  proof (cases ys)
    case Nil
    with Cons show ?thesis by (simp add: sort_by_time_def)
  next
    case (Cons x1 rest)
    with assms \<open>xs = x0 # ys\<close> have "\<not> goes_after k x0 x1"
      and "successively (\<lambda>a b. \<not> goes_after k a b) (x1 # rest)"
      by simp_all
    then have "\<not> goes_after k x0 x1" "run_more k False x1 rest = length rest"
      by (simp_all add: run_more_settled)
    with Cons \<open>xs = x0 # ys\<close> show ?thesis by (simp add: sort_by_time_def)
  qed
qed

lemma sort_by_time_idem: "sort_by_time k (sort_by_time k xs) = sort_by_time k xs"
  by (simp add: sort_by_time_fixed settled_sort_by_time)

lemma js_ge_trans: "js_ge a b \<Longrightarrow> js_ge b c \<Longrightarrow> js_ge a c"
  by (cases a; cases b; cases c) auto

lemma js_lt_trans: "js_lt a b \<Longrightarrow> js_lt b c \<Longrightarrow> js_lt a c"
  by (cases a; cases b; cases c) auto

lemma js_ge_lt_trans: "js_ge a b \<Longrightarrow> js_lt a c \<Longrightarrow> js_lt b c"
  by (cases a; cases b; cases c) auto

lemma not_js_lt: "a \<noteq> NaN \<Longrightarrow> b \<noteq> NaN \<Longrightarrow> (\<not> js_lt a b) = js_ge a b"
  by (cases a; cases b) auto

lemma js_lt_imp_ge: "js_lt a b \<Longrightarrow> js_ge b a"
  by (cases a; cases b) auto

lemma js_lt_neq: "js_lt a b \<Longrightarrow> a \<noteq> b"
  by (cases a; cases b) auto

lemma js_lt_key: "js_lt a b \<Longrightarrow> a = c \<Longrightarrow> b \<noteq> c"
  by (cases a; cases b) auto

text \<open>With valid dates and a sorted prefix the binary search finds the place behind
  the elements that are not older than the pivot.\<close>

lemma position_sorted:
  assumes sorted: "sorted_wrt (\<lambda>a b. js_ge (k a) (k b)) ws"
    and valid: "\<forall>r\<in>set ws. k r \<noteq> NaN" "k p \<noteq> NaN"
    and l: "l \<le> length ws"
    and left: "l = 0 \<or> \<not> goes_after k (ws ! (l - 1)) p"
    and right: "l = length ws \<or> goes_after k (ws ! l) p"
  shows "\<forall>x\<in>set (take l ws). js_ge (k x) (k p)"
    and "\<forall>y\<in>set (drop l ws). js_lt (k y) (k p)"
proof -
  show "\<forall>x\<in>set (take l ws). js_ge (k x) (k p)"
  proof
    fix x assume "x \<in> set (take l ws)"
    then obtain i where i: "i < l" "x = ws ! i"
      using l by (auto simp: in_set_conv_nth)
    with left l have last: "js_ge (k (ws ! (l - 1))) (k p)"
      using valid by (auto simp: goes_after_def not_js_lt)
    show "js_ge (k x) (k p)"
    proof (cases "i = l - 1")
      case True
      with i last show ?thesis by simp
    next
      case False
      with i l have "js_ge (k (ws ! i)) (k (ws ! (l - 1)))"
        by (intro sorted_wrt_nth_less [OF sorted]) auto
      with i last show ?thesis by (auto intro: js_ge_trans)
    qed
  qed
  show "\<forall>y\<in>set (drop l ws). js_lt (k y) (k p)"
  proof
    fix y assume "y \<in> set (drop l ws)"
    then obtain j where "j < length ws - l" "y = ws ! (l + j)"
      by (auto simp: in_set_conv_nth)
    then have j: "l + j < length ws" "y = ws ! (l + j)"
      by simp_all
    with right have first: "js_lt (k (ws ! l)) (k p)"
      by (auto simp: goes_after_def)
    show "js_lt (k y) (k p)"
    proof (cases "j = 0")
      case True
      with j first show ?thesis by simp
    next
      case False
      with j have "js_ge (k (ws ! l)) (k (ws ! (l + j)))"
        by (intro sorted_wrt_nth_less [OF sorted]) auto
      with j first show ?thesis by (auto intro: js_ge_lt_trans)
    qed
  qed
qed

lemma insert_at_sorted:
  assumes sorted: "sorted_wrt (\<lambda>a b. js_ge (k a) (k b)) ws"
    and valid: "\<forall>r\<in>set ws. k r \<noteq> NaN" "k p \<noteq> NaN"
  defines "l \<equiv> search_pos k p ws 0 (length ws)"
  shows "sorted_wrt (\<lambda>a b. js_ge (k a) (k b)) (take l ws @ p # drop l ws)"
    and "filter (\<lambda>r. k r = Num t) (take l ws @ p # drop l ws) =
         filter (\<lambda>r. k r = Num t) ws @ filter (\<lambda>r. k r = Num t) [p]"
proof -
  have l: "l \<le> length ws"
    unfolding l_def using search_pos_bounds [of 0 "length ws" k p ws] by simp
  have br: "(l = 0 \<or> \<not> goes_after k (ws ! (l - 1)) p) \<and>
      (l = length ws \<or> goes_after k (ws ! l) p)"
    unfolding l_def by (rule search_pos_bracket) simp_all
  note pos = position_sorted [OF sorted valid l conjunct1 [OF br] conjunct2 [OF br]]
  have ws: "take l ws @ drop l ws = ws" by simp
  have st: "sorted_wrt (\<lambda>a b. js_ge (k a) (k b)) (take l ws)"
    "sorted_wrt (\<lambda>a b. js_ge (k a) (k b)) (drop l ws)"
    using sorted by (metis ws sorted_wrt_append)+
  have cross: "\<forall>x\<in>set (take l ws). \<forall>y\<in>set (drop l ws). js_ge (k x) (k y)"
    using sorted by (metis ws sorted_wrt_append)
  have pd: "\<forall>y\<in>set (drop l ws). js_ge (k p) (k y)"
    using pos(2) by (auto intro: js_lt_imp_ge)
  show "sorted_wrt (\<lambda>a b. js_ge (k a) (k b)) (take l ws @ p # drop l ws)"
    unfolding sorted_wrt_append using st cross pd pos(1) by simp
  have split: "filter (\<lambda>r. k r = Num t) ws =
      filter (\<lambda>r. k r = Num t) (take l ws) @ filter (\<lambda>r. k r = Num t) (drop l ws)"
    by (metis ws filter_append)
  show "filter (\<lambda>r. k r = Num t) (take l ws @ p # drop l ws) =
         filter (\<lambda>r. k r = Num t) ws @ filter (\<lambda>r. k r = Num t) [p]"
  proof (cases "k p = Num t")
    case True
    with pos(2) have "\<forall>y\<in>set (drop l ws). k y \<noteq> Num t"
      by (metis js_lt_neq)
    then have "filter (\<lambda>r. k r = Num t) (drop l ws) = []"
      by (simp add: filter_empty_conv)
    with True split show ?thesis by simp
  next
    case False
    with split show ?thesis by simp
  qed
qed

lemma insert_all_sorted:
  "sorted_wrt (\<lambda>a b. js_ge (k a) (k b)) ws \<Longrightarrow> \<forall>r\<in>set ws. k r \<noteq> NaN \<Longrightarrow>
   \<forall>r\<in>set rest. k r \<noteq> NaN \<Longrightarrow>
   sorted_wrt (\<lambda>a b. js_ge (k a) (k b)) (insert_all k ws rest) \<and>
   filter (\<lambda>r. k r = Num t) (insert_all k ws rest) =
     filter (\<lambda>r. k r = Num t) ws @ filter (\<lambda>r. k r = Num t) rest"
proof (induction rest arbitrary: ws)
  case Nil
  then show ?case by simp
next
  case (Cons p rest)
  let ?l = "search_pos k p ws 0 (length ws)"
  let ?ws = "take ?l ws @ p # drop ?l ws"
  have p: "k p \<noteq> NaN" using Cons.prems by simp
  note ins = insert_at_sorted [OF Cons.prems(1,2) p]
  have v: "\<forall>r\<in>set ?ws. k r \<noteq> NaN"
    using Cons.prems(2) p unfolding set_insert_at by simp
  have r: "\<forall>r\<in>set rest. k r \<noteq> NaN" using Cons.prems by simp
  have "filter (\<lambda>r. k r = Num t) (insert_all k ?ws rest) =
      (filter (\<lambda>r. k r = Num t) ws @ filter (\<lambda>r. k r = Num t) [p]) @
      filter (\<lambda>r. k r = Num t) rest"
    using Cons.IH [OF ins(1) v r] ins(2) [of t] by (simp only:)
  also have "\<dots> = filter (\<lambda>r. k r = Num t) ws @ filter (\<lambda>r. k r = Num t) (p # rest)"
    by simp
  finally show ?case
    using Cons.IH [OF ins(1) v r] by (simp only: insert_all.simps simp_thms)
qed

lemma distinct_keys_filter:
  "sorted_wrt (\<lambda>a b. js_lt (k a) (k b)) xs \<Longrightarrow> length (filter (\<lambda>r. k r = c) xs) \<le> 1"
proof (induction xs)
  case Nil
  then show ?case by simp
next
  case (Cons x xs)
  show ?case
  proof (cases "k x = c")
    case True
    with Cons.prems have "\<forall>y\<in>set xs. k y \<noteq> c"
      by (auto dest: js_lt_key)
    then have "filter (\<lambda>r. k r = c) xs = []"
      by (simp add: filter_empty_conv)
    with True show ?thesis by simp
  next
    case False
    with Cons show ?thesis by simp
  qed
qed

lemma rev_short: "length xs \<le> 1 \<Longrightarrow> rev xs = xs"
  by (cases xs) auto

lemma run_sorted:
  assumes valid: "k x0 \<noteq> NaN" "k x1 \<noteq> NaN" "\<forall>r\<in>set rest. k r \<noteq> NaN"
  defines "run \<equiv> (if goes_after k x0 x1 then rev (x0 # x1 # take (run_more k True x1 rest) rest)
      else x0 # x1 # take (run_more k False x1 rest) rest)"
  shows "sorted_wrt (\<lambda>a b. js_ge (k a) (k b)) run \<and>
         filter (\<lambda>r. k r = Num t) run =
         filter (\<lambda>r. k r = Num t)
           (x0 # x1 # take (run_more k (goes_after k x0 x1) x1 rest) rest)"
proof (cases "goes_after k x0 x1")
  case True
  let ?r = "x0 # x1 # take (run_more k True x1 rest) rest"
  have tr_lt: "transp (\<lambda>a b. js_lt (k a) (k b))"
    by (auto simp: transp_def intro: js_lt_trans)
  have "successively (\<lambda>a b. goes_after k a b = True) ?r"
    using True run_more_successively [of k True x1 rest] by simp
  then have "successively (\<lambda>a b. js_lt (k a) (k b)) ?r"
    by (simp add: goes_after_def)
  then have inc: "sorted_wrt (\<lambda>a b. js_lt (k a) (k b)) ?r"
    by (simp only: successively_conv_sorted_wrt [OF tr_lt])
  then have "sorted_wrt (\<lambda>a b. js_lt (k b) (k a)) (rev ?r)"
    by (simp only: sorted_wrt_rev)
  then have sorted: "sorted_wrt (\<lambda>a b. js_ge (k a) (k b)) (rev ?r)"
    by (rule sorted_wrt_mono_rel [rotated]) (auto intro: js_lt_imp_ge)
  have "filter (\<lambda>r. k r = Num t) (rev ?r) = rev (filter (\<lambda>r. k r = Num t) ?r)"
    by (simp only: rev_filter)
  also have "\<dots> = filter (\<lambda>r. k r = Num t) ?r"
    by (rule rev_short) (rule distinct_keys_filter [OF inc])
  finally have "filter (\<lambda>r. k r = Num t) (rev ?r) = filter (\<lambda>r. k r = Num t) ?r" .
  with sorted True show ?thesis
    by (simp only: run_def if_True)
next
  case False
  let ?r = "x0 # x1 # take (run_more k False x1 rest) rest"
  have tr_ge: "transp (\<lambda>a b. js_ge (k a) (k b))"
    by (auto simp: transp_def intro: js_ge_trans)
  have v: "\<forall>r\<in>set ?r. k r \<noteq> NaN"
    using valid by (auto dest: in_set_takeD)
  have "successively (\<lambda>a b. goes_after k a b = False) ?r"
    using False run_more_successively [of k False x1 rest] by simp
  then have "successively (\<lambda>a b. js_ge (k a) (k b)) ?r"
    by (rule successively_mono) (use v in \<open>auto simp: goes_after_def not_js_lt\<close>)
  then have "sorted_wrt (\<lambda>a b. js_ge (k a) (k b)) ?r"
    by (simp only: successively_conv_sorted_wrt [OF tr_ge])
  with False show ?thesis
    by (simp only: run_def if_False simp_thms)
qed

lemma sort_by_time_sorted:
  assumes "\<forall>r\<in>set xs. k r \<noteq> NaN"
  shows "sorted_wrt (\<lambda>a b. js_ge (k a) (k b)) (sort_by_time k xs) \<and>
         filter (\<lambda>r. k r = Num t) (sort_by_time k xs) = filter (\<lambda>r. k r = Num t) xs"
proof (cases xs)
  case Nil
  then show ?thesis by (simp add: sort_by_time_def)
next
  case (Cons x0 ys)
  show ?thesis
  proof (cases ys)
    case Nil
    with Cons show ?thesis by (simp add: sort_by_time_def)
  next
    case (Cons x1 rest)
    let ?n = "run_more k (goes_after k x0 x1) x1 rest"
    let ?run = "if goes_after k x0 x1 then rev (x0 # x1 # take (run_more k True x1 rest) rest)
      else x0 # x1 # take (run_more k False x1 rest) rest"
    from assms \<open>xs = x0 # ys\<close> Cons
    have v: "k x0 \<noteq> NaN" "k x1 \<noteq> NaN" "\<forall>r\<in>set rest. k r \<noteq> NaN" by simp_all
    note run = run_sorted [OF v, of t]
    have "set ?run \<subseteq> insert x0 (insert x1 (set rest))"
      by (auto dest: in_set_takeD)
    then have vr: "\<forall>r\<in>set ?run. k r \<noteq> NaN"
      using v by blast
    have vd: "\<forall>r\<in>set (drop ?n rest). k r \<noteq> NaN"
      using v by (auto dest: in_set_dropD)
    have s: "sort_by_time k xs = insert_all k ?run (drop ?n rest)"
      using \<open>xs = x0 # ys\<close> Cons by (simp add: sort_by_time_def del: rev.simps)
    have "(x0 # x1 # take ?n rest) @ drop ?n rest = xs"
      using \<open>xs = x0 # ys\<close> Cons by simp
    then have "filter (\<lambda>r. k r = Num t) (x0 # x1 # take ?n rest) @
          filter (\<lambda>r. k r = Num t) (drop ?n rest) = filter (\<lambda>r. k r = Num t) xs"
      by (metis filter_append)
    with insert_all_sorted [OF conjunct1 [OF run] vr vd, of t] conjunct2 [OF run]
    show ?thesis
      unfolding s by simp
  qed
qed

lemma goes_after_cong: "k x = k' x \<Longrightarrow> k y = k' y \<Longrightarrow> goes_after k x y = goes_after k' x y"
  by (simp add: goes_after_def)

lemma search_pos_cong:
  assumes "\<forall>r\<in>set ws. k r = k' r" "k p = k' p" "right \<le> length ws"
  shows "search_pos k p ws left right = search_pos k' p ws left right"
  using assms
proof (induction k p ws left right rule: search_pos.induct)
  case (1 k p ws left right)
  show ?case
  proof (cases "left < right")
    case False
    then show ?thesis by (simp add: search_pos_done)
  next
    case True
    let ?mid = "left + (right - left) div 2"
    have m: "?mid < length ws" "?mid \<le> length ws" using True "1.prems"(3) by linarith+
    then have "ws ! ?mid \<in> set ws" by simp
    with "1.prems" have g: "goes_after k (ws ! ?mid) p = goes_after k' (ws ! ?mid) p"
      by (intro goes_after_cong) auto
    show ?thesis
    proof (cases "goes_after k (ws ! ?mid) p")
      case t: True
      from "1.IH"(1) [OF True t "1.prems"(1,2) m(2)] t g True show ?thesis
        by (simp add: search_pos_step)
    next
      case f: False
      from "1.IH"(2) [OF True f "1.prems"] f g True show ?thesis
        by (simp add: search_pos_step)
    qed
  qed
qed

lemma insert_all_cong:
  "\<forall>r\<in>set ws. k r = k' r \<Longrightarrow> \<forall>r\<in>set rest. k r = k' r \<Longrightarrow>
   insert_all k ws rest = insert_all k' ws rest"
proof (induction rest arbitrary: ws)
  case Nil
  then show ?case by simp
next
  case (Cons p rest)
  have l: "search_pos k p ws 0 (length ws) = search_pos k' p ws 0 (length ws)"
    using Cons.prems by (intro search_pos_cong) simp_all
  let ?l = "search_pos k' p ws 0 (length ws)"
  have "\<forall>r\<in>set (take ?l ws @ p # drop ?l ws). k r = k' r"
    using Cons.prems unfolding set_insert_at by simp
  with Cons l show ?case by simp
qed

lemma run_more_cong:
  "k prev = k' prev \<Longrightarrow> \<forall>r\<in>set xs. k r = k' r \<Longrightarrow>
   run_more k desc prev xs = run_more k' desc prev xs"
proof (induction xs arbitrary: prev)
  case Nil
  then show ?case by simp
next
  case (Cons x xs)
  then have "goes_after k prev x = goes_after k' prev x"
    by (intro goes_after_cong) simp_all
  with Cons show ?case by simp
qed

lemma sort_by_time_cong:
  assumes "\<forall>r\<in>set xs. k r = k' r"
  shows "sort_by_time k xs = sort_by_time k' xs"
proof (cases xs)
  case Nil
  then show ?thesis by (simp add: sort_by_time_def)
next
  case (Cons x0 ys)
  show ?thesis
  proof (cases ys)
    case Nil
    with Cons show ?thesis by (simp add: sort_by_time_def)
  next
    case (Cons x1 rest)
    from assms \<open>xs = x0 # ys\<close> Cons
    have a: "k x0 = k' x0" "k x1 = k' x1" "\<forall>r\<in>set rest. k r = k' r" by simp_all
    then have g: "goes_after k x0 x1 = goes_after k' x0 x1"
      by (intro goes_after_cong)
    have n: "run_more k d x1 rest = run_more k' d x1 rest" for d
      using a by (intro run_more_cong)
    let ?run = "if goes_after k' x0 x1 then rev (x0 # x1 # take (run_more k' True x1 rest) rest)
             else x0 # x1 # take (run_more k' False x1 rest) rest"
    let ?others = "drop (run_more k' (goes_after k' x0 x1) x1 rest) rest"
    have "\<forall>r\<in>set ?run. k r = k' r" "\<forall>r\<in>set ?others. k r = k' r"
      using a by (auto dest: in_set_takeD in_set_dropD)
    then have "insert_all k ?run ?others = insert_all k' ?run ?others"
      by (rule insert_all_cong)
    with Cons \<open>xs = x0 # ys\<close> g n show ?thesis
      by (cases "goes_after k' x0 x1") (simp_all add: sort_by_time_def del: rev.simps)
  qed
qed


lemma sorted_settled:
  "sorted_wrt (\<lambda>a b. js_ge (k a) (k b)) xs \<Longrightarrow> successively (\<lambda>a b. \<not> goes_after k a b) xs"
proof -
  assume "sorted_wrt (\<lambda>a b. js_ge (k a) (k b)) xs"
  then have "successively (\<lambda>a b. js_ge (k a) (k b)) xs"
    by (rule successively_if_sorted_wrt)
  then show ?thesis
  proof (rule successively_mono)
    fix a b assume "js_ge (k a) (k b)"
    then show "\<not> goes_after k a b"
      by (cases "k a"; cases "k b") (auto simp: goes_after_def)
  qed
qed

section \<open>The store after the pipeline\<close>

lemma filter_elems_pure:
  "list_all (\<lambda>r. \<not> isl (get_document h r)) xs \<Longrightarrow>
   filter_elems (not_draft h) xs = Inr (filter (published h) xs)"
proof (induction xs)
  case Nil
  then show ?case by simp
next
  case (Cons x xs)
  then obtain d where "get_document h x = Inr d" by (auto dest!: get_document_cases)
  with Cons show ?case by (simp add: not_draft_def published_def)
qed

lemma get_document_append:
  "r < length h \<Longrightarrow> get_document (h @ [ob]) r = get_document h r"
  by (simp add: get_document_def nth_append)

lemma get_document_bound: "\<not> isl (get_document h r) \<Longrightarrow> r < length h"
  by (auto simp: get_document_def split: if_splits)

lemma time_value_append:
  "r < length h \<Longrightarrow> time_value (h @ [ob]) r = time_value h r"
  by (simp add: time_value_def get_document_append)

lemma sortedPosts_result:
  assumes "document_array h posts rs"
  shows "sortedPosts h posts =
     Inr (length h, h @ [ArrObj (sort_by_time (time_value h) (filter (published h) rs))])"
proof -
  let ?ks = "filter (published h) rs"
  let ?h1 = "h @ [ArrObj ?ks]"
  from assms have arr: "get_array h posts = Inr rs"
    and docs: "list_all (\<lambda>r. \<not> isl (get_document h r)) rs"
    by (simp_all add: document_array_def)
  have f: "array_filter h not_draft posts = Inr (length h, ?h1)"
    by (simp add: array_filter_def arr filter_elems_pure [OF docs])
  have bound: "\<forall>r\<in>set ?ks. r < length h"
    using docs by (auto simp: list_all_iff dest: get_document_bound)
  have docs1: "list_all (\<lambda>r. \<not> isl (get_document ?h1 r)) ?ks"
    using docs bound by (auto simp: list_all_iff get_document_append)
  have arr1: "get_array ?h1 (length h) = Inr ?ks"
    by (simp add: get_array_def)
  have "sort_by_time (time_value ?h1) ?ks = sort_by_time (time_value h) ?ks"
    using bound by (intro sort_by_time_cong) (simp add: time_value_append)
  then have s: "array_sort ?h1 by_date_desc (length h) =
      Inr (length h, h @ [ArrObj (sort_by_time (time_value h) ?ks)])"
    by (simp add: array_sort_def arr1 sort_elems_pure [OF docs1])
  show ?thesis by (simp add: sortedPosts_def f s)
qed

lemma get_array_new: "get_array (h @ [ArrObj qs]) (length h) = Inr qs"
  by (simp add: get_array_def)

lemma get_array_append: "a < length h \<Longrightarrow> get_array (h @ [ob]) a = get_array h a"
  by (simp add: get_array_def nth_append)

lemma get_array_bound: "get_array h a = Inr rs \<Longrightarrow> a < length h"
  by (auto simp: get_array_def split: if_splits)

lemma published_append: "r < length h \<Longrightarrow> published (h @ [ob]) r = published h r"
  by (simp add: published_def get_document_append)

lemma document_array_bound:
  "document_array h posts rs \<Longrightarrow> posts < length h \<and> (\<forall>r\<in>set rs. r < length h)"
  by (auto simp: document_array_def list_all_iff dest: get_document_bound get_array_bound)

lemma document_array_append:
  assumes "document_array h posts rs"
  shows "document_array (h @ [ob]) posts rs"
  using assms document_array_bound [OF assms]
  by (auto simp: document_array_def list_all_iff get_array_append get_document_append)

lemma store_after:
  assumes "document_array h posts rs"
  defines "qs \<equiv> sort_by_time (time_value h) (filter (published h) rs)"
  shows "sortedPosts h posts = Inr (length h, h @ [ArrObj qs])"
    and "get_array (h @ [ArrObj qs]) (length h) = Inr qs"
    and "\<forall>r\<in>set qs. r < length h"
  unfolding qs_def using document_array_bound [OF assms(1)]
  by (simp_all add: sortedPosts_result [OF assms(1)] get_array_new set_sort_by_time)

lemma pipeline_append:
  assumes "\<forall>r\<in>set rs. r < length h"
  shows "sort_by_time (time_value (h @ [ob])) (filter (published (h @ [ob])) rs) =
         sort_by_time (time_value h) (filter (published h) rs)"
proof -
  have "filter (published (h @ [ob])) rs = filter (published h) rs"
    using assms by (intro filter_cong) (simp_all add: published_append)
  moreover have "sort_by_time (time_value (h @ [ob])) (filter (published h) rs) =
      sort_by_time (time_value h) (filter (published h) rs)"
    using assms by (intro sort_by_time_cong) (simp add: time_value_append)
  ultimately show ?thesis by simp
qed

section \<open>The pipeline on the example stores\<close>

text \<open>
  Example 1 of the specification (the draft is dropped, the newest comes first), the
  four posts of the repository, a tie, a store with an Invalid Date, where the
  result is a permutation but not in descending order, and the store with mixed
  dates, where the posts 4 and 6 of one date change places.
\<close>

lemma example1_result:
  "sortedPosts example1_store 3 = Inr (4, example1_store @ [ArrObj [1, 0]])"
  by (simp add: store_defs run_defs)

lemma repository_result:
  "sortedPosts repository_store 4 = Inr (5, repository_store @ [ArrObj [2, 0, 1, 3]])"
  by (simp add: store_defs run_defs)

lemma tie_result:
  "sortedPosts tie_store 3 = Inr (4, tie_store @ [ArrObj [1, 0, 2]])"
  by (simp add: store_defs run_defs)

lemma invalid_result:
  "sortedPosts invalid_store 3 = Inr (4, invalid_store @ [ArrObj [0, 1, 2]])"
  by (simp add: store_defs run_defs)

lemma mixed_result:
  "sortedPosts mixed_store 7 = Inr (8, mixed_store @ [ArrObj [5, 6, 0, 1, 2, 3, 4]])"
  by (simp add: store_defs run_defs)

lemma short_mixed_result:
  "sortedPosts short_mixed_store 4 = Inr (5, short_mixed_store @ [ArrObj [1, 3, 0, 2]])"
  by (simp add: store_defs run_defs)

lemma not_an_array: "sortedPosts example1_store 0 = Inl TypeError"
  by (simp add: store_defs run_defs)

text \<open>Rounding above \<open>2 ^ 53\<close>.\<close>

lemma to_double_examples:
  "to_double 9007199254740993 = 9007199254740992"
  "to_double 9007199254740995 = 9007199254740996"
  "to_double (- 9007199254740993) = - 9007199254740992"
  "to_double 17280000000000000 = 17280000000000000"
  by (simp_all add: to_double_def)

section \<open>The first states of the URL parser\<close>

lemma scheme_state_none: "CHR '':'' \<notin> set cs \<Longrightarrow> scheme_state buffer cs = None"
  by (induction cs arbitrary: buffer) auto

lemma set_strip_input: "set (strip_input s) \<subseteq> set s"
proof -
  have "set (rev (dropWhile c0_control_or_space (rev (dropWhile c0_control_or_space s))))
      \<subseteq> set s"
    by (auto dest!: set_dropWhileD)
  then show ?thesis by (auto simp: strip_input_def)
qed

lemma no_scheme_fails:
  assumes "CHR '':'' \<notin> set s"
  shows "basic_url_parser after_scheme s = None"
proof -
  have "CHR '':'' \<notin> set (strip_input s)"
    using assms set_strip_input by blast
  then have "scheme_start_state (strip_input s) = None"
    by (cases "strip_input s")
       (auto simp: scheme_start_state_def scheme_state_none)
  then show ?thesis by (simp add: basic_url_parser_def)
qed

lemma undefined_fails: "basic_url_parser after_scheme ''undefined'' = None"
  by (rule no_scheme_fails) simp



section \<open>The claims about the Publication Filter/Sort\<close>

text \<open>
  C1: on every array of documents the pipeline returns an array holding exactly the
  input documents whose \<open>draft\<close> is not strictly \<^verbatim>\<open>true\<close> (absent, false or any
  other value), each as often as the input holds it: the output is a permutation of
  that part of the input, and the documents are the same objects with the same fields.
\<close>

theorem sortedPosts_keeps_non_drafts:
  assumes "document_array h posts rs"
  shows "\<exists>out h' qs. sortedPosts h posts = Inr (out, h') \<and> get_array h' out = Inr qs \<and>
           mset qs = mset (filter (published h) rs) \<and>
           (\<forall>r\<in>set qs. get_document h' r = get_document h r)"
proof -
  let ?qs = "sort_by_time (time_value h) (filter (published h) rs)"
  let ?h' = "h @ [ArrObj ?qs]"
  have run: "sortedPosts h posts = Inr (length h, ?h')"
    by (rule sortedPosts_result [OF assms])
  have arr: "get_array ?h' (length h) = Inr ?qs"
    by (rule get_array_new)
  have m: "mset ?qs = mset (filter (published h) rs)"
    by (simp add: mset_sort_by_time)
  have "\<forall>r\<in>set ?qs. r < length h"
    using document_array_bound [OF assms] by (simp add: set_sort_by_time)
  then have d: "\<forall>r\<in>set ?qs. get_document ?h' r = get_document h r"
    by (simp add: get_document_append)
  from run arr m d show ?thesis by blast
qed

theorem sortedPosts_keeps_non_drafts_witness:
  "document_array example1_store 3 [0, 1, 2] \<and>
   (\<exists>out h' qs. sortedPosts example1_store 3 = Inr (out, h') \<and> get_array h' out = Inr qs \<and>
      mset qs = mset (filter (published example1_store) [0, 1, 2]) \<and>
      (\<forall>r\<in>set qs. get_document h' r = get_document example1_store r))"
proof -
  have h: "document_array example1_store 3 [0, 1, 2]"
    by (simp add: store_defs eval_defs)
  from h sortedPosts_keeps_non_drafts [OF h] show ?thesis by blast
qed

text \<open>
  C2: when every input document has a valid date, the output is in descending order of
  the timestamps: for documents A before B in the output, the timestamp of A is
  \<^verbatim>\<open>>=\<close> that of B. The timestamps are compared as numbers (milliseconds since the
  epoch), never as strings.
\<close>

theorem sortedPosts_descending:
  assumes "document_array h posts rs"
    and "\<forall>r\<in>set rs. time_value h r \<noteq> NaN"
  shows "\<exists>out h' qs. sortedPosts h posts = Inr (out, h') \<and> get_array h' out = Inr qs \<and>
           sorted_wrt (\<lambda>a b. js_ge (time_value h' a) (time_value h' b)) qs"
proof -
  let ?qs = "sort_by_time (time_value h) (filter (published h) rs)"
  let ?h' = "h @ [ArrObj ?qs]"
  note st = store_after [OF assms(1)]
  have same: "\<forall>r\<in>set ?qs. time_value ?h' r = time_value h r"
    using st(3) by (simp add: time_value_append)
  have "sorted_wrt (\<lambda>a b. js_ge (time_value h a) (time_value h b)) ?qs"
    using assms(2) by (intro conjunct1 [OF sort_by_time_sorted]) simp
  then have "sorted_wrt (\<lambda>a b. js_ge (time_value ?h' a) (time_value ?h' b)) ?qs"
    by (rule sorted_wrt_mono_rel [rotated]) (simp add: same)
  with st(1,2) show ?thesis by blast
qed

theorem sortedPosts_descending_witness:
  "document_array repository_store 4 [0, 1, 2, 3] \<and>
   list_all (\<lambda>r. time_value repository_store r \<noteq> NaN) [0, 1, 2, 3] \<and>
   (\<exists>out h' qs. sortedPosts repository_store 4 = Inr (out, h') \<and> get_array h' out = Inr qs \<and>
      sorted_wrt (\<lambda>a b. js_ge (time_value h' a) (time_value h' b)) qs)"
proof -
  have h1: "document_array repository_store 4 [0, 1, 2, 3]"
    by (simp add: store_defs eval_defs)
  have h2: "\<forall>r\<in>set [0, 1, 2, 3]. time_value repository_store r \<noteq> NaN"
    by (simp add: store_defs eval_defs)
  have h3: "list_all (\<lambda>r. time_value repository_store r \<noteq> NaN) [0, 1, 2, 3]"
    using h2 by (simp only: list_all_iff)
  from h1 h3 sortedPosts_descending [OF h1 h2] show ?thesis by blast
qed

text \<open>
  C6: on the empty array the pipeline returns an empty array and raises nothing.
\<close>

theorem sortedPosts_empty:
  assumes "get_array h posts = Inr []"
  shows "\<exists>out h'. sortedPosts h posts = Inr (out, h') \<and> get_array h' out = Inr []"
proof -
  have "sortedPosts h posts = Inr (length h, h @ [ArrObj []])"
    using assms
    by (simp add: sortedPosts_def array_filter_def array_sort_def get_array_def
        sort_elems_def)
  moreover have "get_array (h @ [ArrObj []]) (length h) = Inr []"
    by (rule get_array_new)
  ultimately show ?thesis by blast
qed

theorem sortedPosts_empty_witness:
  "get_array [ArrObj []] 0 = Inr [] \<and>
   (\<exists>out h'. sortedPosts [ArrObj []] 0 = Inr (out, h') \<and> get_array h' out = Inr [])"
proof -
  have h: "get_array [ArrObj []] 0 = Inr []"
    by (simp add: get_array_def)
  from h sortedPosts_empty [OF h] show ?thesis by blast
qed

text \<open>
  C5: the pipeline leaves every object of the store as it was, the input array and each
  document with all its fields among them; the array it returns is a new object,
  different from the input array.
\<close>

theorem sortedPosts_frame:
  assumes "document_array h posts rs"
  shows "\<exists>out h'. sortedPosts h posts = Inr (out, h') \<and>
           take (length h) h' = h \<and> \<not> out < length h \<and> out \<noteq> posts \<and>
           get_array h' posts = Inr rs \<and>
           (\<forall>r\<in>set rs. get_document h' r = get_document h r)"
proof -
  let ?qs = "sort_by_time (time_value h) (filter (published h) rs)"
  let ?h' = "h @ [ArrObj ?qs]"
  note st = store_after [OF assms]
  note b = document_array_bound [OF assms]
  have "get_array ?h' posts = Inr rs"
    using assms b by (simp add: get_array_append document_array_def)
  moreover have "\<forall>r\<in>set rs. get_document ?h' r = get_document h r"
    using b by (simp add: get_document_append)
  moreover have "take (length h) ?h' = h" by simp
  moreover have "length h \<noteq> posts" using b by auto
  ultimately show ?thesis using st(1) by blast
qed

theorem sortedPosts_frame_witness:
  "document_array example1_store 3 [0, 1, 2] \<and>
   (\<exists>out h'. sortedPosts example1_store 3 = Inr (out, h') \<and>
      take (length example1_store) h' = example1_store \<and> \<not> out < length example1_store \<and>
      out \<noteq> 3 \<and> get_array h' 3 = Inr [0, 1, 2] \<and>
      (\<forall>r\<in>set [0, 1, 2]. get_document h' r = get_document example1_store r))"
proof -
  have h: "document_array example1_store 3 [0, 1, 2]"
    by (simp add: store_defs eval_defs)
  from h sortedPosts_frame [OF h] show ?thesis by blast
qed

text \<open>
  C3: a second invocation on the same input array, in the store the first one left,
  returns an array with the same documents in the same order, also when several
  documents share a date.
\<close>

theorem sortedPosts_deterministic:
  assumes "document_array h posts rs"
  shows "\<exists>out1 h1 out2 h2 qs.
           sortedPosts h posts = Inr (out1, h1) \<and> sortedPosts h1 posts = Inr (out2, h2) \<and>
           get_array h1 out1 = Inr qs \<and> get_array h2 out2 = Inr qs \<and>
           (\<forall>r\<in>set qs. get_document h2 r = get_document h1 r)"
proof -
  let ?qs = "sort_by_time (time_value h) (filter (published h) rs)"
  let ?h1 = "h @ [ArrObj ?qs]"
  let ?h2 = "?h1 @ [ArrObj ?qs]"
  note st = store_after [OF assms]
  note b = document_array_bound [OF assms]
  have again: "document_array ?h1 posts rs"
    by (rule document_array_append [OF assms])
  have "sort_by_time (time_value ?h1) (filter (published ?h1) rs) = ?qs"
    using b by (intro pipeline_append) simp
  then have run2: "sortedPosts ?h1 posts = Inr (length ?h1, ?h2)"
    using store_after(1) [OF again] by simp
  have arr2: "get_array ?h2 (length ?h1) = Inr ?qs"
    by (rule get_array_new)
  have "\<forall>r\<in>set ?qs. r < length ?h1"
    using st(3) by auto
  then have same: "\<forall>r\<in>set ?qs. get_document ?h2 r = get_document ?h1 r"
    by (simp add: get_document_append del: append_assoc)
  from st(1,2) run2 arr2 same show ?thesis by blast
qed

theorem sortedPosts_deterministic_witness:
  "document_array tie_store 3 [0, 1, 2] \<and>
   (\<exists>out1 h1 out2 h2 qs.
      sortedPosts tie_store 3 = Inr (out1, h1) \<and> sortedPosts h1 3 = Inr (out2, h2) \<and>
      get_array h1 out1 = Inr qs \<and> get_array h2 out2 = Inr qs \<and>
      (\<forall>r\<in>set qs. get_document h2 r = get_document h1 r))"
proof -
  have h: "document_array tie_store 3 [0, 1, 2]"
    by (simp add: store_defs eval_defs)
  from h sortedPosts_deterministic [OF h] show ?thesis by blast
qed

text \<open>
  C4: the pipeline applied to its own output returns the same sequence; and an array
  that holds no draft and is in descending order of the timestamps is returned as
  it is.
\<close>

theorem sortedPosts_idempotent:
  assumes "document_array h posts rs"
  shows "(\<exists>out1 h1 qs out2 h2.
            sortedPosts h posts = Inr (out1, h1) \<and> get_array h1 out1 = Inr qs \<and>
            sortedPosts h1 out1 = Inr (out2, h2) \<and> get_array h2 out2 = Inr qs) \<and>
         ((\<forall>r\<in>set rs. published h r) \<and>
          sorted_wrt (\<lambda>a b. js_ge (time_value h a) (time_value h b)) rs \<longrightarrow>
          (\<exists>out h'. sortedPosts h posts = Inr (out, h') \<and> get_array h' out = Inr rs))"
proof
  let ?qs = "sort_by_time (time_value h) (filter (published h) rs)"
  let ?h1 = "h @ [ArrObj ?qs]"
  let ?h2 = "?h1 @ [ArrObj ?qs]"
  note st = store_after [OF assms]
  have docs: "\<forall>r\<in>set ?qs. \<not> isl (get_document h r)"
    using assms by (auto simp: set_sort_by_time document_array_def list_all_iff)
  have pub: "\<forall>r\<in>set ?qs. published h r"
    by (simp add: set_sort_by_time)
  have again: "document_array ?h1 (length h) ?qs"
    using st(2,3) docs by (simp add: document_array_def list_all_iff get_document_append)
  have "filter (published h) ?qs = ?qs"
    using pub by simp
  then have "sort_by_time (time_value h) (filter (published h) ?qs) = ?qs"
    by (simp add: sort_by_time_idem)
  moreover have "sort_by_time (time_value ?h1) (filter (published ?h1) ?qs) =
      sort_by_time (time_value h) (filter (published h) ?qs)"
    using st(3) by (rule pipeline_append)
  ultimately have run2: "sortedPosts ?h1 (length h) = Inr (length ?h1, ?h2)"
    using store_after(1) [OF again] by simp
  have arr2: "get_array ?h2 (length ?h1) = Inr ?qs"
    by (rule get_array_new)
  from st(1,2) run2 arr2
  show "\<exists>out1 h1 qs out2 h2.
            sortedPosts h posts = Inr (out1, h1) \<and> get_array h1 out1 = Inr qs \<and>
            sortedPosts h1 out1 = Inr (out2, h2) \<and> get_array h2 out2 = Inr qs"
    by blast
next
  show "(\<forall>r\<in>set rs. published h r) \<and>
          sorted_wrt (\<lambda>a b. js_ge (time_value h a) (time_value h b)) rs \<longrightarrow>
          (\<exists>out h'. sortedPosts h posts = Inr (out, h') \<and> get_array h' out = Inr rs)"
  proof
    assume a: "(\<forall>r\<in>set rs. published h r) \<and>
          sorted_wrt (\<lambda>a b. js_ge (time_value h a) (time_value h b)) rs"
    then have "filter (published h) rs = rs" by simp
    moreover have "sort_by_time (time_value h) rs = rs"
      using a by (intro sort_by_time_fixed sorted_settled) simp
    ultimately have "sortedPosts h posts = Inr (length h, h @ [ArrObj rs])"
      using store_after(1) [OF assms] by simp
    moreover have "get_array (h @ [ArrObj rs]) (length h) = Inr rs"
      by (rule get_array_new)
    ultimately show "\<exists>out h'. sortedPosts h posts = Inr (out, h') \<and> get_array h' out = Inr rs"
      by blast
  qed
qed

theorem sortedPosts_idempotent_witness:
  "document_array sorted_store 3 [0, 1, 2] \<and>
   list_all (published sorted_store) [0, 1, 2] \<and>
   sorted_wrt (\<lambda>a b. js_ge (time_value sorted_store a) (time_value sorted_store b)) [0, 1, 2] \<and>
   (\<exists>out h'. sortedPosts sorted_store 3 = Inr (out, h') \<and> get_array h' out = Inr [0, 1, 2])"
proof -
  have h1: "document_array sorted_store 3 [0, 1, 2]"
    by (simp add: store_defs eval_defs)
  have h2: "\<forall>r\<in>set [0, 1, 2]. published sorted_store r"
    by (simp add: store_defs eval_defs)
  have h3: "sorted_wrt (\<lambda>a b. js_ge (time_value sorted_store a) (time_value sorted_store b)) [0, 1, 2]"
    by (simp add: store_defs eval_defs)
  from sortedPosts_idempotent [OF h1] h2 h3
  have "\<exists>out h'. sortedPosts sorted_store 3 = Inr (out, h') \<and> get_array h' out = Inr [0, 1, 2]"
    by blast
  moreover have "list_all (published sorted_store) [0, 1, 2]"
    using h2 by (simp only: list_all_iff)
  ultimately show ?thesis using h1 h3 by blast
qed

text \<open>
  C8, as amended: when every document that is not a draft has a valid date, documents
  whose timestamps are equal keep the relative order they had in the input: for
  every timestamp \<open>t\<close>, the output documents dated \<open>t\<close> are the kept input documents
  dated \<open>t\<close>, in input order. With an Invalid Date among the documents the order of
  equal dates can change: in \<^const>\<open>mixed_store\<close> the posts 4 and 6 share a date and
  come out as 6, 4.
\<close>

theorem sortedPosts_stable:
  assumes "document_array h posts rs"
    and "\<forall>r\<in>set rs. published h r \<longrightarrow> time_value h r \<noteq> NaN"
  shows "\<exists>out h' qs. sortedPosts h posts = Inr (out, h') \<and> get_array h' out = Inr qs \<and>
           (\<forall>t. filter (\<lambda>r. time_value h' r = Num t) qs =
                filter (\<lambda>r. time_value h r = Num t) (filter (published h) rs))"
proof -
  let ?qs = "sort_by_time (time_value h) (filter (published h) rs)"
  let ?h' = "h @ [ArrObj ?qs]"
  note st = store_after [OF assms(1)]
  have valid: "\<forall>r\<in>set (filter (published h) rs). time_value h r \<noteq> NaN"
    using assms(2) by simp
  have "filter (\<lambda>r. time_value ?h' r = Num t) ?qs =
        filter (\<lambda>r. time_value h r = Num t) (filter (published h) rs)" for t
  proof -
    have "filter (\<lambda>r. time_value ?h' r = Num t) ?qs = filter (\<lambda>r. time_value h r = Num t) ?qs"
      using st(3) by (intro filter_cong) (simp_all add: time_value_append)
    then show ?thesis
      using conjunct2 [OF sort_by_time_sorted [OF valid, of t]] by (simp only:)
  qed
  with st(1,2) show ?thesis by blast
qed

theorem sortedPosts_stable_witness:
  "document_array tie_store 3 [0, 1, 2] \<and>
   list_all (\<lambda>r. published tie_store r \<longrightarrow> time_value tie_store r \<noteq> NaN) [0, 1, 2] \<and>
   (\<exists>out h' qs. sortedPosts tie_store 3 = Inr (out, h') \<and> get_array h' out = Inr qs \<and>
      filter (\<lambda>r. time_value h' r = Num 1690502400000) qs = [0, 2])"
proof -
  have h: "document_array tie_store 3 [0, 1, 2]"
    by (simp add: store_defs eval_defs)
  have v: "\<forall>r\<in>set [0, 1, 2]. published tie_store r \<longrightarrow> time_value tie_store r \<noteq> NaN"
    by (simp add: store_defs eval_defs)
  have v': "list_all (\<lambda>r. published tie_store r \<longrightarrow> time_value tie_store r \<noteq> NaN) [0, 1, 2]"
    using v by (simp only: list_all_iff)
  have e: "filter (\<lambda>r. time_value tie_store r = Num 1690502400000)
             (filter (published tie_store) [0, 1, 2]) = [0, 2]"
    by (simp add: store_defs eval_defs)
  from sortedPosts_stable [OF h v] obtain out h' qs where
    r: "sortedPosts tie_store 3 = Inr (out, h')" "get_array h' out = Inr qs"
    and s: "\<forall>t. filter (\<lambda>r. time_value h' r = Num t) qs =
          filter (\<lambda>r. time_value tie_store r = Num t) (filter (published tie_store) [0, 1, 2])"
    by blast
  from s have "filter (\<lambda>r. time_value h' r = Num 1690502400000) qs =
      filter (\<lambda>r. time_value tie_store r = Num 1690502400000)
        (filter (published tie_store) [0, 1, 2])"
    by (rule spec)
  with e have "filter (\<lambda>r. time_value h' r = Num 1690502400000) qs = [0, 2]"
    by (simp only:)
  with r have "\<exists>out h' qs. sortedPosts tie_store 3 = Inr (out, h') \<and>
      get_array h' out = Inr qs \<and>
      filter (\<lambda>r. time_value h' r = Num 1690502400000) qs = [0, 2]"
    by blast
  with h v' show ?thesis by (intro conjI)
qed

theorem sortedPosts_stable_counterexample:
  "document_array mixed_store 7 [0, 1, 2, 3, 4, 5, 6] \<and>
   published mixed_store 4 \<and> published mixed_store 6 \<and>
   time_value mixed_store 4 = Num 2000 \<and> time_value mixed_store 6 = Num 2000 \<and>
   sortedPosts mixed_store 7 = Inr (8, mixed_store @ [ArrObj [5, 6, 0, 1, 2, 3, 4]])"
proof -
  have a: "document_array mixed_store 7 [0, 1, 2, 3, 4, 5, 6]"
    by (simp add: store_defs eval_defs)
  have b: "published mixed_store 4" "published mixed_store 6"
    "time_value mixed_store 4 = Num 2000" "time_value mixed_store 6 = Num 2000"
    by (simp_all add: store_defs eval_defs)
  from a b mixed_result show ?thesis by (intro conjI)
qed

text \<open>
  C9: the pipeline returns on every array of documents, also when a date is invalid:
  the comparator then yields NaN, which the sort reads as zero, and the output is
  still a permutation of the documents that are not drafts.
\<close>

theorem sortedPosts_total:
  assumes "document_array h posts rs"
  shows "(\<forall>a\<in>set rs. \<forall>b\<in>set rs. time_value h a = NaN \<or> time_value h b = NaN \<longrightarrow>
            by_date_desc h a b = Inr NaN \<and> SortCompare (by_date_desc h) a b = Inr 0) \<and>
         (\<exists>out h' qs. sortedPosts h posts = Inr (out, h') \<and> get_array h' out = Inr qs \<and>
            mset qs = mset (filter (published h) rs))"
proof
  show "\<forall>a\<in>set rs. \<forall>b\<in>set rs. time_value h a = NaN \<or> time_value h b = NaN \<longrightarrow>
            by_date_desc h a b = Inr NaN \<and> SortCompare (by_date_desc h) a b = Inr 0"
  proof (intro ballI impI)
    fix a b assume ab: "a \<in> set rs" "b \<in> set rs"
      and nan: "time_value h a = NaN \<or> time_value h b = NaN"
    from ab assms have "\<not> isl (get_document h a)" "\<not> isl (get_document h b)"
      by (simp_all add: document_array_def list_all_iff)
    then obtain da db where d: "get_document h a = Inr da" "get_document h b = Inr db"
      by (meson get_document_cases)
    with nan have "date_value da = NaN \<or> date_value db = NaN"
      by (simp add: time_value_def)
    then have "js_minus (date_value db) (date_value da) = NaN"
      by (cases "date_value db"; cases "date_value da") auto
    then show "by_date_desc h a b = Inr NaN \<and> SortCompare (by_date_desc h) a b = Inr 0"
      by (simp add: by_date_desc_def SortCompare_def d)
  qed
next
  let ?qs = "sort_by_time (time_value h) (filter (published h) rs)"
  note st = store_after [OF assms]
  have "mset ?qs = mset (filter (published h) rs)"
    by (simp add: mset_sort_by_time)
  with st(1,2)
  show "\<exists>out h' qs. sortedPosts h posts = Inr (out, h') \<and> get_array h' out = Inr qs \<and>
            mset qs = mset (filter (published h) rs)"
    by blast
qed

theorem sortedPosts_total_witness:
  "document_array invalid_store 3 [0, 1, 2] \<and> time_value invalid_store 1 = NaN \<and>
   by_date_desc invalid_store 1 2 = Inr NaN \<and>
   (\<exists>out h' qs. sortedPosts invalid_store 3 = Inr (out, h') \<and> get_array h' out = Inr qs \<and>
      mset qs = mset (filter (published invalid_store) [0, 1, 2]))"
proof -
  have h: "document_array invalid_store 3 [0, 1, 2]"
    by (simp add: store_defs eval_defs)
  have n: "time_value invalid_store 1 = NaN"
    by (simp add: store_defs eval_defs)
  from sortedPosts_total [OF h] n have "by_date_desc invalid_store 1 2 = Inr NaN"
    by simp
  with h n sortedPosts_total [OF h] show ?thesis by blast
qed

section \<open>The claims about the site configuration\<close>




text \<open>
  C10: when the site address is absent (then the string \<^verbatim>\<open>undefined\<close> is parsed,
  which has no scheme), has no scheme, or does not parse for another reason,
  loading the module raises a TypeError, no configuration value exists, and the
  listing page, which imports the module, is not produced.
\<close>

theorem config_fails_fast:
  assumes "SITE e = None \<or>
           (\<exists>s. SITE e = Some s \<and>
                (CHR '':'' \<notin> set s \<or> basic_url_parser after_scheme s = None))"
  shows "load_config after_scheme e = Inl TypeError \<and>
         (\<forall>cfg. load_config after_scheme e \<noteq> Inr cfg) \<and>
         index_page after_scheme e h posts = Inl TypeError"
proof -
  have "basic_url_parser after_scheme (case SITE e of None \<Rightarrow> ''undefined'' | Some s \<Rightarrow> s) = None"
    using assms by (auto simp: undefined_fails no_scheme_fails)
  then have "load_config after_scheme e = Inl TypeError"
    by (simp add: load_config_def new_URL_def)
  then show ?thesis by (simp add: index_page_def)
qed

theorem config_fails_fast_witness:
  "SITE \<lparr>SITE = None\<rparr> = None \<and>
   load_config accept_all \<lparr>SITE = None\<rparr> = Inl TypeError \<and>
   index_page accept_all \<lparr>SITE = None\<rparr> repository_store 4 = Inl TypeError \<and>
   SITE \<lparr>SITE = Some ''/blog''\<rparr> = Some ''/blog'' \<and> CHR '':'' \<notin> set ''/blog'' \<and>
   load_config accept_all \<lparr>SITE = Some ''/blog''\<rparr> = Inl TypeError"
proof -
  have h1: "SITE \<lparr>SITE = None\<rparr> = None \<or>
      (\<exists>s. SITE \<lparr>SITE = None\<rparr> = Some s \<and>
           (CHR '':'' \<notin> set s \<or> basic_url_parser accept_all s = None))"
    by simp
  have c: "CHR '':'' \<notin> set ''/blog''" by simp
  then have h2: "SITE \<lparr>SITE = Some ''/blog''\<rparr> = None \<or>
      (\<exists>s. SITE \<lparr>SITE = Some ''/blog''\<rparr> = Some s \<and>
           (CHR '':'' \<notin> set s \<or> basic_url_parser accept_all s = None))"
    by simp
  from config_fails_fast [of "\<lparr>SITE = None\<rparr>" accept_all repository_store 4, OF h1]
    config_fails_fast [of "\<lparr>SITE = Some ''/blog''\<rparr>" accept_all repository_store 4, OF h2] c
  show ?thesis by simp
qed

end
